theory Spec2Isabelle
  imports Main
begin

section \<open>The node graph\<close>

text \<open>
  A \<^verbatim>\<open>BinaryTreeNode<T>\<close> is a mutable object whose links \<^verbatim>\<open>#father\<close>,
  \<^verbatim>\<open>#left\<close> and \<^verbatim>\<open>#right\<close> are references to other such objects or
  \<^verbatim>\<open>null\<close>. The objects live in a store: a list of node cells addressed by
  position. \<^verbatim>\<open>new BinaryTreeNode(data)\<close> appends a cell, so the address of a new
  object is the length of the store before the allocation. A reference
  (\<^verbatim>\<open>BTNode<T>\<close>, an object or \<^verbatim>\<open>null\<close>) is an optional address, and
  \<^verbatim>\<open>===\<close> on references is equality of optional addresses.

  The private field \<^verbatim>\<open>#level\<close> is a natural number: it starts at 0 and is only
  ever assigned \<^verbatim>\<open>level() + 1\<close>, which a JavaScript number represents exactly
  below \<open>2^53\<close>, more than the number of objects a store can hold.
\<close>

type_synonym addr = nat

type_synonym ref = "addr option"

record 'a node =
  p_data :: 'a
  p_father :: ref
  p_left :: ref
  p_right :: ref
  p_level :: nat

type_synonym 'a heap = "'a node list"

datatype error = InvalidInsertion

subsection \<open>Constructor and field access\<close>

definition new_BinaryTreeNode :: "'a heap \<Rightarrow> 'a \<Rightarrow> 'a heap \<times> addr" where
  "new_BinaryTreeNode h d =
     (h @ [\<lparr>p_data = d, p_father = None, p_left = None, p_right = None, p_level = 0\<rparr>],
      length h)"

definition data :: "'a heap \<Rightarrow> addr \<Rightarrow> 'a" where
  "data h this = p_data (h ! this)"

definition father :: "'a heap \<Rightarrow> addr \<Rightarrow> ref" where
  "father h this = p_father (h ! this)"

definition left :: "'a heap \<Rightarrow> addr \<Rightarrow> ref" where
  "left h this = p_left (h ! this)"

definition right :: "'a heap \<Rightarrow> addr \<Rightarrow> ref" where
  "right h this = p_right (h ! this)"

definition level :: "'a heap \<Rightarrow> addr \<Rightarrow> nat" where
  "level h this = p_level (h ! this)"

definition set_father :: "'a heap \<Rightarrow> addr \<Rightarrow> ref \<Rightarrow> 'a heap" where
  "set_father h a r = h[a := (h ! a)\<lparr>p_father := r\<rparr>]"

definition set_left :: "'a heap \<Rightarrow> addr \<Rightarrow> ref \<Rightarrow> 'a heap" where
  "set_left h a r = h[a := (h ! a)\<lparr>p_left := r\<rparr>]"

definition set_right :: "'a heap \<Rightarrow> addr \<Rightarrow> ref \<Rightarrow> 'a heap" where
  "set_right h a r = h[a := (h ! a)\<lparr>p_right := r\<rparr>]"

definition set_level :: "'a heap \<Rightarrow> addr \<Rightarrow> nat \<Rightarrow> 'a heap" where
  "set_level h a l = h[a := (h ! a)\<lparr>p_level := l\<rparr>]"

subsection \<open>Predicates on a node\<close>

definition isRoot :: "'a heap \<Rightarrow> addr \<Rightarrow> bool" where
  "isRoot h this = (father h this = None)"

definition isLeaf :: "'a heap \<Rightarrow> addr \<Rightarrow> bool" where
  "isLeaf h this = (left h this = None \<and> right h this = None)"

text \<open>
  \<^verbatim>\<open>this.father?.right === this\<close>: with no father the left side is
  \<^verbatim>\<open>undefined\<close>, which is not identical to an object.
\<close>

definition isRight :: "'a heap \<Rightarrow> addr \<Rightarrow> bool" where
  "isRight h this =
     (case father h this of None \<Rightarrow> False | Some f \<Rightarrow> right h f = Some this)"

definition isLeft :: "'a heap \<Rightarrow> addr \<Rightarrow> bool" where
  "isLeft h this =
     (case father h this of None \<Rightarrow> False | Some f \<Rightarrow> left h f = Some this)"

definition brother :: "'a heap \<Rightarrow> addr \<Rightarrow> ref" where
  "brother h this =
     (case father h this of
        None \<Rightarrow> None
      | Some f \<Rightarrow> if isLeft h this then right h f else left h f)"

subsection \<open>Insertion\<close>

text \<open>
  The methods mutate the store and either return \<^verbatim>\<open>this\<close> or throw; the model
  returns the store after the call together with the outcome. The test
  \<^verbatim>\<open>if (this.left)\<close> is true exactly for an object, false for \<^verbatim>\<open>null\<close>.
\<close>

definition insertLeft :: "'a heap \<Rightarrow> addr \<Rightarrow> 'a \<Rightarrow> 'a heap \<times> (error + addr)" where
  "insertLeft h this d =
     (if left h this \<noteq> None then (h, Inl InvalidInsertion)
      else
        let (h1, l) = new_BinaryTreeNode h d;
            h2 = set_left h1 this (Some l);
            h3 = set_father h2 l (Some this);
            h4 = set_level h3 l (level h3 this + 1)
        in (h4, Inr this))"

definition insertRight :: "'a heap \<Rightarrow> addr \<Rightarrow> 'a \<Rightarrow> 'a heap \<times> (error + addr)" where
  "insertRight h this d =
     (if right h this \<noteq> None then (h, Inl InvalidInsertion)
      else
        let (h1, r) = new_BinaryTreeNode h d;
            h2 = set_right h1 this (Some r);
            h3 = set_father h2 r (Some this);
            h4 = set_level h3 r (level h3 this + 1)
        in (h4, Inr this))"

subsection \<open>The walks\<close>

text \<open>
  The three loops return on every store the methods can build, but not on a store with
  a cycle of links; a run that does not return is the value \<open>None\<close>.
\<close>

partial_function (option) root_loop :: "'a heap \<Rightarrow> addr \<Rightarrow> addr option" where
  "root_loop h node =
     (case father h node of None \<Rightarrow> Some node | Some f \<Rightarrow> root_loop h f)"

declare root_loop.simps [code]

definition root :: "'a heap \<Rightarrow> addr \<Rightarrow> addr option" where
  "root h this = root_loop h this"

partial_function (option) ancestor_loop :: "'a heap \<Rightarrow> ref \<Rightarrow> ref \<Rightarrow> bool option" where
  "ancestor_loop h tree node =
     (case node of
        None \<Rightarrow> Some False
      | Some a \<Rightarrow> if node = tree then Some True else ancestor_loop h tree (father h a))"

declare ancestor_loop.simps [code]

definition ancestor :: "'a heap \<Rightarrow> addr \<Rightarrow> ref \<Rightarrow> bool option" where
  "ancestor h this tree = ancestor_loop h tree (father h this)"

text \<open>
  Modelled from the spec: the class \<^verbatim>\<open>Stack\<close> of the package \<^verbatim>\<open>linear\<close>, which
  \<^verbatim>\<open>descendant\<close> imports and which is not among the sources. The spec asks of it
  a LIFO container with push, pop and empty; it is a list whose head is the top.
\<close>

type_synonym 'e stack = "'e list"

definition push :: "'e \<Rightarrow> 'e stack \<Rightarrow> 'e stack" where
  "push x s = x # s"

definition empty :: "'e stack \<Rightarrow> bool" where
  "empty s = (s = [])"

fun pop :: "'e stack \<Rightarrow> ('e \<times> 'e stack) option" where
  "pop [] = None"
| "pop (x # s) = Some (x, s)"

text \<open>
  The stack of \<^verbatim>\<open>descendant\<close> before its loop: \<^verbatim>\<open>this.left\<close> and
  \<^verbatim>\<open>this.right\<close> are pushed as they are.
\<close>

definition descendant_seed :: "'a heap \<Rightarrow> addr \<Rightarrow> ref stack" where
  "descendant_seed h this = push (right h this) (push (left h this) [])"

text \<open>
  One pass of the loop body after the comparison: \<^verbatim>\<open>node?.left\<close> is
  \<^verbatim>\<open>undefined\<close> for a \<^verbatim>\<open>null\<close> node, and a child is pushed only when it is an
  object.
\<close>

definition push_sons :: "'a heap \<Rightarrow> ref \<Rightarrow> ref stack \<Rightarrow> ref stack" where
  "push_sons h node visited =
     (let v1 = (case node of
                  None \<Rightarrow> visited
                | Some a \<Rightarrow> (case left h a of None \<Rightarrow> visited | Some l \<Rightarrow> push (Some l) visited));
          v2 = (case node of
                  None \<Rightarrow> v1
                | Some a \<Rightarrow> (case right h a of None \<Rightarrow> v1 | Some r \<Rightarrow> push (Some r) v1))
      in v2)"

text \<open>
  The loop pops only after \<^verbatim>\<open>!visited.empty()\<close>, so the branch for a pop from
  an empty stack is never taken.
\<close>

partial_function (option) descendant_loop :: "'a heap \<Rightarrow> ref \<Rightarrow> ref stack \<Rightarrow> bool option" where
  "descendant_loop h tree visited =
     (if empty visited then Some False
      else
        case pop visited of
          None \<Rightarrow> None
        | Some (node, rest) \<Rightarrow>
            if node = tree then Some True
            else descendant_loop h tree (push_sons h node rest))"

declare descendant_loop.simps [code]

definition descendant :: "'a heap \<Rightarrow> addr \<Rightarrow> ref \<Rightarrow> bool option" where
  "descendant h this tree = descendant_loop h tree (descendant_seed h this)"

section \<open>Traversal modes\<close>

text \<open>
  The numeric enum \<^verbatim>\<open>TraversalMethod\<close> of \<^verbatim>\<open>types.ts\<close>, declared as
  \<^verbatim>\<open>ASC, DESC, PREORDER = 0, POSTORDER, INORDER\<close>: a member without an
  initialiser is the member before it plus one, and the first member is 0.
\<close>

definition ASC :: nat where
  "ASC = 0"

definition DESC :: nat where
  "DESC = ASC + 1"

definition PREORDER :: nat where
  "PREORDER = 0"

definition POSTORDER :: nat where
  "POSTORDER = PREORDER + 1"

definition INORDER :: nat where
  "INORDER = POSTORDER + 1"

section \<open>Well-formed stores and reachability\<close>

text \<open>
  What holds of every store that the constructor, \<^verbatim>\<open>insertLeft\<close> and
  \<^verbatim>\<open>insertRight\<close> build from the empty one: links point at allocated objects, a
  son is allocated after its father, the two directions of a link agree, a node sits in
  one slot of its father only, and the cached level is that of the father plus one.
\<close>

definition wf_node :: "'a heap \<Rightarrow> addr \<Rightarrow> bool" where
  "wf_node h n =
     ((case father h n of
         None \<Rightarrow> level h n = 0
       | Some f \<Rightarrow> f < n \<and> level h n = level h f + 1 \<and>
                   (left h f = Some n) \<noteq> (right h f = Some n)) \<and>
      (case left h n of
         None \<Rightarrow> True
       | Some c \<Rightarrow> n < c \<and> c < length h \<and> father h c = Some n) \<and>
      (case right h n of
         None \<Rightarrow> True
       | Some c \<Rightarrow> n < c \<and> c < length h \<and> father h c = Some n))"

definition wf_heap :: "'a heap \<Rightarrow> bool" where
  "wf_heap h = list_all (wf_node h) [0..<length h]"


text \<open>
  Following son links along a list of slots, and following the father link a number of
  times; both stop at \<^verbatim>\<open>null\<close>.
\<close>

datatype slot = L | R

definition son :: "'a heap \<Rightarrow> addr \<Rightarrow> slot \<Rightarrow> ref" where
  "son h a s = (case s of L \<Rightarrow> left h a | R \<Rightarrow> right h a)"

fun walk_down :: "'a heap \<Rightarrow> ref \<Rightarrow> slot list \<Rightarrow> ref" where
  "walk_down h r [] = r"
| "walk_down h r (s # ss) =
     (case r of None \<Rightarrow> None | Some a \<Rightarrow> walk_down h (son h a s) ss)"

fun walk_up :: "'a heap \<Rightarrow> ref \<Rightarrow> nat \<Rightarrow> ref" where
  "walk_up h r 0 = r"
| "walk_up h r (Suc k) =
     (case r of None \<Rightarrow> None | Some a \<Rightarrow> walk_up h (father h a) k)"

text \<open>
  The stores of the methods: the empty store, and what the constructor and the two
  insertions, called on an allocated object, make of such a store.
\<close>

inductive built :: "'a heap \<Rightarrow> bool" where
  built_Nil: "built []"
| built_new: "built h \<Longrightarrow> built (fst (new_BinaryTreeNode h d))"
| built_insertLeft: "built h \<Longrightarrow> n < length h \<Longrightarrow> built (fst (insertLeft h n d))"
| built_insertRight: "built h \<Longrightarrow> n < length h \<Longrightarrow> built (fst (insertRight h n d))"

text \<open>
  What bounds the search of \<^verbatim>\<open>descendant\<close>: an entry of the stack weighs three
  times what a son of it can weigh, so a pass of the loop, which pops one entry and
  pushes at most its two sons, makes the stack lighter.
\<close>

definition ref_weight :: "'a heap \<Rightarrow> ref \<Rightarrow> nat" where
  "ref_weight h r = (case r of None \<Rightarrow> 1 | Some a \<Rightarrow> 3 ^ (length h - a))"

definition stack_weight :: "'a heap \<Rightarrow> ref stack \<Rightarrow> nat" where
  "stack_weight h st = sum_list (map (ref_weight h) st)"

text \<open>
  The store after \<^verbatim>\<open>new BinaryTreeNode(5).insertLeft(3).insertRight(8)\<close> followed
  by \<^verbatim>\<open>insertLeft(1)\<close> and \<^verbatim>\<open>insertRight(4)\<close> on the node holding 3.
\<close>

definition example_heap :: "nat heap" where
  "example_heap =
     [\<lparr>p_data = 5, p_father = None, p_left = Some 1, p_right = Some 2, p_level = 0\<rparr>,
      \<lparr>p_data = 3, p_father = Some 0, p_left = Some 3, p_right = Some 4, p_level = 1\<rparr>,
      \<lparr>p_data = 8, p_father = Some 0, p_left = None, p_right = None, p_level = 1\<rparr>,
      \<lparr>p_data = 1, p_father = Some 1, p_left = None, p_right = None, p_level = 2\<rparr>,
      \<lparr>p_data = 4, p_father = Some 1, p_left = None, p_right = None, p_level = 2\<rparr>]"

section \<open>The invariants and their preservation\<close>

lemma case_option_all:
  "(case x of None \<Rightarrow> True | Some c \<Rightarrow> P c) \<longleftrightarrow> (\<forall>c. x = Some c \<longrightarrow> P c)"
  by (cases x) simp_all

lemma wf_node_iff:
  "wf_node h n \<longleftrightarrow>
     (father h n = None \<longrightarrow> level h n = 0) \<and>
     (\<forall>f. father h n = Some f \<longrightarrow>
        f < n \<and> level h n = level h f + 1 \<and> (left h f = Some n) \<noteq> (right h f = Some n)) \<and>
     (\<forall>c. left h n = Some c \<longrightarrow> n < c \<and> c < length h \<and> father h c = Some n) \<and>
     (\<forall>c. right h n = Some c \<longrightarrow> n < c \<and> c < length h \<and> father h c = Some n)"
  by (cases "father h n") (simp_all add: wf_node_def case_option_all)

lemma wf_heap_iff: "wf_heap h \<longleftrightarrow> (\<forall>n<length h. wf_node h n)"
  by (auto simp: wf_heap_def list_all_iff)

lemma wf_fatherD:
  assumes "wf_heap h" "n < length h" "father h n = Some f"
  shows "f < n" "level h n = level h f + 1"
    "left h f = Some n \<or> right h f = Some n"
    "\<not> (left h f = Some n \<and> right h f = Some n)"
  using assms by (auto simp: wf_heap_iff wf_node_def)

lemma wf_rootD:
  assumes "wf_heap h" "n < length h" "father h n = None"
  shows "level h n = 0"
  using assms by (auto simp: wf_heap_iff wf_node_def)

lemma wf_leftD:
  assumes "wf_heap h" "n < length h" "left h n = Some c"
  shows "n < c" "c < length h" "father h c = Some n"
  using assms by (auto simp: wf_heap_iff wf_node_def)

lemma wf_rightD:
  assumes "wf_heap h" "n < length h" "right h n = Some c"
  shows "n < c" "c < length h" "father h c = Some n"
  using assms by (auto simp: wf_heap_iff wf_node_def)

lemma wf_sonD:
  assumes "wf_heap h" "n < length h" "son h n s = Some c"
  shows "n < c" "c < length h" "father h c = Some n"
  using assms wf_leftD [of h n c] wf_rightD [of h n c]
  by (cases s; simp add: son_def)+

lemma wf_father_son:
  assumes "wf_heap h" "n < length h" "father h n = Some f"
  shows "\<exists>s. son h f s = Some n"
proof -
  from wf_fatherD(3) [OF assms] show ?thesis
  proof
    assume "left h f = Some n"
    then have "son h f L = Some n" by (simp add: son_def)
    then show ?thesis ..
  next
    assume "right h f = Some n"
    then have "son h f R = Some n" by (simp add: son_def)
    then show ?thesis ..
  qed
qed

lemma wf_heap_Nil: "wf_heap []"
  by (simp add: wf_heap_def)

lemma wf_heap_new:
  assumes "wf_heap h"
  shows "wf_heap (fst (new_BinaryTreeNode h d))"
  unfolding wf_heap_iff
proof (intro allI impI)
  fix n
  assume "n < length (fst (new_BinaryTreeNode h d))"
  then have n: "n \<le> length h" by (simp add: new_BinaryTreeNode_def)
  show "wf_node (fst (new_BinaryTreeNode h d)) n"
  proof (cases "n = length h")
    case True
    then show ?thesis
      by (simp add: wf_node_iff new_BinaryTreeNode_def father_def left_def right_def level_def)
  next
    case False
    with n have lt: "n < length h" by simp
    with assms have "wf_node h n" by (simp add: wf_heap_iff)
    with lt show ?thesis
      by (auto simp: wf_node_iff new_BinaryTreeNode_def father_def left_def right_def
          level_def nth_append)
  qed
qed


lemma insertLeft_effect:
  assumes "n < length h" "left h n = None"
  shows "insertLeft h n d =
     (h[n := (h ! n)\<lparr>p_left := Some (length h)\<rparr>] @
        [\<lparr>p_data = d, p_father = Some n, p_left = None, p_right = None,
          p_level = level h n + 1\<rparr>], Inr n)"
  using assms
  by (simp add: insertLeft_def new_BinaryTreeNode_def set_left_def set_father_def
      set_level_def level_def left_def nth_append list_update_append)

lemma insertRight_effect:
  assumes "n < length h" "right h n = None"
  shows "insertRight h n d =
     (h[n := (h ! n)\<lparr>p_right := Some (length h)\<rparr>] @
        [\<lparr>p_data = d, p_father = Some n, p_left = None, p_right = None,
          p_level = level h n + 1\<rparr>], Inr n)"
  using assms
  by (simp add: insertRight_def new_BinaryTreeNode_def set_right_def set_father_def
      set_level_def level_def right_def nth_append list_update_append)

lemma insert_raises_unchanged:
  "left h n \<noteq> None \<Longrightarrow> insertLeft h n d = (h, Inl InvalidInsertion)"
  "right h n \<noteq> None \<Longrightarrow> insertRight h n d = (h, Inl InvalidInsertion)"
  by (simp_all add: insertLeft_def insertRight_def)

lemma wf_heap_insertLeft:
  assumes wf: "wf_heap h" and n: "n < length h"
  shows "wf_heap (fst (insertLeft h n d))"
proof (cases "left h n")
  case (Some c)
  with wf show ?thesis by (simp add: insert_raises_unchanged)
next
  case None
  let ?h' = "fst (insertLeft h n d)"
  have eq: "?h' = h[n := (h ! n)\<lparr>p_left := Some (length h)\<rparr>] @
        [\<lparr>p_data = d, p_father = Some n, p_left = None, p_right = None,
          p_level = level h n + 1\<rparr>]"
    using n None by (simp add: insertLeft_effect)
  have old: "father ?h' m = father h m" "right ?h' m = right h m" "level ?h' m = level h m"
    "left ?h' m = (if m = n then Some (length h) else left h m)" if "m < length h" for m
    using that n by (simp_all add: eq father_def right_def level_def left_def nth_append
        nth_list_update)
  have new: "father ?h' (length h) = Some n" "right ?h' (length h) = None"
    "left ?h' (length h) = None" "level ?h' (length h) = level h n + 1"
    by (simp_all add: eq father_def right_def level_def left_def nth_append)
  have len: "length ?h' = Suc (length h)" by (simp add: eq)
  show ?thesis
    unfolding wf_heap_iff
  proof (intro allI impI)
    fix m
    assume "m < length ?h'"
    then have m: "m \<le> length h" by (simp add: len)
    show "wf_node ?h' m"
    proof (cases "m = length h")
      case True
      have "right h n \<noteq> Some (length h)"
        using wf_rightD(2) [OF wf n] by fastforce
      then show ?thesis
        using n True by (simp add: wf_node_iff new old)
    next
      case False
      with m have lt: "m < length h" by simp
      with wf have wm: "wf_node h m" by (simp add: wf_heap_iff)
      have f: "f < length h" if "father h m = Some f" for f
        using wf_fatherD(1) [OF wf lt that] lt by simp
      show ?thesis
        using wm lt None f
        by (auto simp: wf_node_iff old new len)
    qed
  qed
qed


lemma wf_heap_insertRight:
  assumes wf: "wf_heap h" and n: "n < length h"
  shows "wf_heap (fst (insertRight h n d))"
proof (cases "right h n")
  case (Some c)
  with wf show ?thesis by (simp add: insert_raises_unchanged)
next
  case None
  let ?h' = "fst (insertRight h n d)"
  have eq: "?h' = h[n := (h ! n)\<lparr>p_right := Some (length h)\<rparr>] @
        [\<lparr>p_data = d, p_father = Some n, p_left = None, p_right = None,
          p_level = level h n + 1\<rparr>]"
    using n None by (simp add: insertRight_effect)
  have old: "father ?h' m = father h m" "left ?h' m = left h m" "level ?h' m = level h m"
    "right ?h' m = (if m = n then Some (length h) else right h m)" if "m < length h" for m
    using that n by (simp_all add: eq father_def right_def level_def left_def nth_append
        nth_list_update)
  have new: "father ?h' (length h) = Some n" "right ?h' (length h) = None"
    "left ?h' (length h) = None" "level ?h' (length h) = level h n + 1"
    by (simp_all add: eq father_def right_def level_def left_def nth_append)
  have len: "length ?h' = Suc (length h)" by (simp add: eq)
  show ?thesis
    unfolding wf_heap_iff
  proof (intro allI impI)
    fix m
    assume "m < length ?h'"
    then have m: "m \<le> length h" by (simp add: len)
    show "wf_node ?h' m"
    proof (cases "m = length h")
      case True
      have "left h n \<noteq> Some (length h)"
        using wf_leftD(2) [OF wf n] by fastforce
      then show ?thesis
        using n True by (simp add: wf_node_iff new old)
    next
      case False
      with m have lt: "m < length h" by simp
      with wf have wm: "wf_node h m" by (simp add: wf_heap_iff)
      have f: "f < length h" if "father h m = Some f" for f
        using wf_fatherD(1) [OF wf lt that] lt by simp
      show ?thesis
        using wm lt None f
        by (auto simp: wf_node_iff old new len)
    qed
  qed
qed









section \<open>The stores of the methods\<close>

lemma built_wf_heap: "built h \<Longrightarrow> wf_heap h"
  by (induction rule: built.induct)
    (simp_all add: wf_heap_Nil wf_heap_new wf_heap_insertLeft wf_heap_insertRight)



section \<open>The walks return on well-formed stores\<close>

lemma walk_up_None [simp]: "walk_up h None k = None"
  by (cases k) simp_all

lemma walk_up_add: "walk_up h r (j + k) = walk_up h (walk_up h r j) k"
proof (induction j arbitrary: r)
  case 0
  show ?case by simp
next
  case (Suc j)
  show ?case by (cases r) (simp_all add: Suc.IH)
qed

lemma walk_up_le:
  assumes wf: "wf_heap h"
  shows "a < length h \<Longrightarrow> walk_up h (Some a) k = Some b \<Longrightarrow> b \<le> a \<and> (0 < k \<longrightarrow> b < a)"
proof (induction k arbitrary: a)
  case 0
  then show ?case by simp
next
  case (Suc k)
  from Suc.prems(2) obtain f where f: "father h a = Some f" and w: "walk_up h (Some f) k = Some b"
    by (cases "father h a") simp_all
  from wf_fatherD(1) [OF wf Suc.prems(1) f] have fa: "f < a" .
  with Suc.prems(1) have "f < length h" by simp
  from Suc.IH [OF this w] fa show ?case by simp
qed

lemma walk_up_root_unique:
  assumes k: "walk_up h (Some n) k = Some r" and r: "father h r = None"
    and k': "walk_up h (Some n) k' = Some r'" and r': "father h r' = None"
  shows "r' = r"
proof -
  have stop: "walk_up h (Some x) j = Some y \<Longrightarrow> father h x = None \<Longrightarrow> y = x" for x y j
    by (cases j) simp_all
  show ?thesis
  proof (cases "k \<le> k'")
    case True
    then obtain j where "k' = k + j" using le_Suc_ex by blast
    with k k' have "walk_up h (Some r) j = Some r'" by (simp add: walk_up_add)
    from stop [OF this r] show ?thesis .
  next
    case False
    then obtain j where "k = k' + j" using le_Suc_ex [of k' k] by auto
    with k k' have "walk_up h (Some r') j = Some r" by (simp add: walk_up_add)
    from stop [OF this r'] show ?thesis by simp
  qed
qed

lemma root_loop_walk:
  assumes wf: "wf_heap h"
  shows "n < length h \<Longrightarrow>
    \<exists>r k. root_loop h n = Some r \<and> r \<le> n \<and> father h r = None \<and> walk_up h (Some n) k = Some r"
proof (induction n rule: less_induct)
  case (less n)
  show ?case
  proof (cases "father h n")
    case None
    then have "root_loop h n = Some n" by (subst root_loop.simps) simp
    moreover have "walk_up h (Some n) 0 = Some n" by simp
    ultimately show ?thesis using None by blast
  next
    case (Some f)
    from wf_fatherD(1) [OF wf less.prems Some] have fn: "f < n" .
    with less.prems have "f < length h" by simp
    from less.IH [OF fn this] obtain r k where
      rk: "root_loop h f = Some r" "r \<le> f" "father h r = None" "walk_up h (Some f) k = Some r"
      by blast
    from Some rk(1) have "root_loop h n = Some r" by (subst root_loop.simps) simp
    moreover from Some rk(4) have "walk_up h (Some n) (Suc k) = Some r" by simp
    ultimately show ?thesis using rk(2,3) fn by (intro exI [of _ r] exI [of _ "Suc k"]) simp
  qed
qed

lemma ancestor_loop_None: "ancestor_loop h tree None = Some False"
  by (subst ancestor_loop.simps) simp

lemma ancestor_loop_Some:
  "ancestor_loop h tree (Some a) =
     (if Some a = tree then Some True else ancestor_loop h tree (father h a))"
  by (subst ancestor_loop.simps) simp

lemma ancestor_loop_result:
  assumes wf: "wf_heap h"
  shows "(\<And>a. node = Some a \<Longrightarrow> a < length h) \<Longrightarrow>
    ancestor_loop h tree node = Some (tree \<noteq> None \<and> (\<exists>k. walk_up h node k = tree))"
proof (induction "case node of None \<Rightarrow> 0 | Some a \<Rightarrow> Suc a" arbitrary: node rule: less_induct)
  case less
  show ?case
  proof (cases node)
    case None
    then have "ancestor_loop h tree node = Some False" by (simp add: ancestor_loop_None)
    moreover have "\<not> (tree \<noteq> None \<and> (\<exists>k. walk_up h node k = tree))"
      using None by auto
    ultimately show ?thesis by simp
  next
    case (Some a)
    with less.prems have a: "a < length h" by simp
    show ?thesis
    proof (cases "node = tree")
      case True
      with Some have t: "tree = Some a" by simp
      have "ancestor_loop h (Some a) (Some a) = Some True"
        by (simp add: ancestor_loop_Some)
      moreover have "walk_up h (Some a) 0 = Some a" by simp
      then have "\<exists>k. walk_up h (Some a) k = Some a" ..
      ultimately show ?thesis unfolding Some t by simp
    next
      case False
      have step: "ancestor_loop h tree node = ancestor_loop h tree (father h a)"
        using Some False by (simp add: ancestor_loop_Some)
      have valid: "b < length h" if "father h a = Some b" for b
        using wf_fatherD(1) [OF wf a that] a by simp
      have smaller: "(case father h a of None \<Rightarrow> 0 | Some b \<Rightarrow> Suc b)
          < (case node of None \<Rightarrow> 0 | Some a \<Rightarrow> Suc a)"
        using Some wf_fatherD(1) [OF wf a] by (cases "father h a") simp_all
      have "(\<exists>k. walk_up h node k = tree) \<longleftrightarrow> (\<exists>k. walk_up h (father h a) k = tree)"
      proof
        assume "\<exists>k. walk_up h node k = tree"
        then obtain k where k: "walk_up h node k = tree" ..
        with False obtain j where "k = Suc j" by (cases k) simp_all
        with k Some have "walk_up h (father h a) j = tree" by simp
        then show "\<exists>k. walk_up h (father h a) k = tree" ..
      next
        assume "\<exists>k. walk_up h (father h a) k = tree"
        then obtain k where "walk_up h (father h a) k = tree" ..
        with Some have "walk_up h node (Suc k) = tree" by simp
        then show "\<exists>k. walk_up h node k = tree" ..
      qed
      with less.hyps [OF smaller valid] step show ?thesis by simp
    qed
  qed
qed

lemma descendant_loop_Nil: "descendant_loop h tree [] = Some False"
  by (subst descendant_loop.simps) (simp add: empty_def)

lemma descendant_loop_Cons:
  "descendant_loop h tree (s # rest) =
     (if s = tree then Some True else descendant_loop h tree (push_sons h s rest))"
  by (subst descendant_loop.simps) (simp add: empty_def)

lemma push_sons_None: "push_sons h None rest = rest"
  by (simp add: push_sons_def)

lemma push_sons_Some:
  "push_sons h (Some a) rest =
     (case right h a of None \<Rightarrow> [] | Some r \<Rightarrow> [Some r]) @
     (case left h a of None \<Rightarrow> [] | Some l \<Rightarrow> [Some l]) @ rest"
  by (simp add: push_sons_def push_def split: option.split)

lemma set_push_sons:
  "set (push_sons h (Some a) rest) = {Some b |b. \<exists>d. son h a d = Some b} \<union> set rest"
proof -
  have son: "(\<exists>d. son h a d = Some b) \<longleftrightarrow> left h a = Some b \<or> right h a = Some b" for b
  proof
    assume "\<exists>d. son h a d = Some b"
    then obtain d where "son h a d = Some b" ..
    then show "left h a = Some b \<or> right h a = Some b"
      by (cases d) (simp_all add: son_def)
  next
    assume "left h a = Some b \<or> right h a = Some b"
    then have "son h a L = Some b \<or> son h a R = Some b" by (simp add: son_def)
    then show "\<exists>d. son h a d = Some b" by blast
  qed
  show ?thesis
    unfolding son push_sons_Some
    by (cases "left h a"; cases "right h a") auto
qed

lemma walk_down_None [simp]: "walk_down h None p = None"
  by (cases p) simp_all

lemma found_step:
  assumes ne: "Some a \<noteq> tree"
  shows "(\<exists>c p. tree = Some c \<and> walk_down h (Some a) p = Some c) \<longleftrightarrow>
     (\<exists>b d. son h a d = Some b \<and>
        (Some b = tree \<or> (\<exists>c p. tree = Some c \<and> walk_down h (Some b) p = Some c)))"
proof
  assume "\<exists>c p. tree = Some c \<and> walk_down h (Some a) p = Some c"
  then obtain c p where c: "tree = Some c" and p: "walk_down h (Some a) p = Some c" by blast
  from ne c p obtain d ds where ds: "p = d # ds" by (cases p) auto
  with p have w: "walk_down h (son h a d) ds = Some c" by simp
  then obtain b where b: "son h a d = Some b" by (cases "son h a d") simp_all
  with w c show "\<exists>b d. son h a d = Some b \<and>
        (Some b = tree \<or> (\<exists>c p. tree = Some c \<and> walk_down h (Some b) p = Some c))"
    by auto
next
  assume "\<exists>b d. son h a d = Some b \<and>
        (Some b = tree \<or> (\<exists>c p. tree = Some c \<and> walk_down h (Some b) p = Some c))"
  then obtain b d where b: "son h a d = Some b"
    and f: "Some b = tree \<or> (\<exists>c p. tree = Some c \<and> walk_down h (Some b) p = Some c)"
    by blast
  from f show "\<exists>c p. tree = Some c \<and> walk_down h (Some a) p = Some c"
  proof
    assume t: "Some b = tree"
    from b have "walk_down h (Some a) [d] = Some b" by simp
    with t show ?thesis by blast
  next
    assume "\<exists>c p. tree = Some c \<and> walk_down h (Some b) p = Some c"
    then obtain c p where c: "tree = Some c" and p: "walk_down h (Some b) p = Some c" by blast
    from b p have "walk_down h (Some a) (d # p) = Some c" by simp
    with c show ?thesis by blast
  qed
qed

lemma ref_weight_pos: "0 < ref_weight h r"
  by (cases r) (simp_all add: ref_weight_def)

lemma son_weight:
  assumes "a < b" "b < length h"
  shows "3 * ref_weight h (Some b) \<le> ref_weight h (Some a)"
proof -
  from assms have "Suc (length h - b) \<le> length h - a" by simp
  then have "(3::nat) ^ Suc (length h - b) \<le> 3 ^ (length h - a)"
    by (rule power_increasing) simp
  then show ?thesis by (simp add: ref_weight_def)
qed

lemma weight_push_sons:
  assumes wf: "wf_heap h" and valid: "\<And>a. s = Some a \<Longrightarrow> a < length h"
  shows "stack_weight h (push_sons h s rest) < stack_weight h (s # rest)"
proof (cases s)
  case None
  then show ?thesis by (simp add: push_sons_None stack_weight_def ref_weight_def)
next
  case (Some a)
  with valid have a: "a < length h" by simp
  have l: "3 * ref_weight h (Some b) \<le> ref_weight h (Some a)" if "left h a = Some b" for b
    using wf_leftD(1,2) [OF wf a that] by (rule son_weight)
  have r: "3 * ref_weight h (Some b) \<le> ref_weight h (Some a)" if "right h a = Some b" for b
    using wf_rightD(1,2) [OF wf a that] by (rule son_weight)
  have pos: "0 < ref_weight h (Some a)" by (rule ref_weight_pos)
  show ?thesis
  proof (cases "left h a")
    case ln: None
    show ?thesis
    proof (cases "right h a")
      case None
      with ln pos Some show ?thesis by (simp add: push_sons_Some stack_weight_def)
    next
      case (Some c)
      with ln r [OF Some] pos \<open>s = Some a\<close> show ?thesis
        by (simp add: push_sons_Some stack_weight_def)
    qed
  next
    case ls: (Some b)
    show ?thesis
    proof (cases "right h a")
      case None
      with ls l [OF ls] pos \<open>s = Some a\<close> show ?thesis
        by (simp add: push_sons_Some stack_weight_def)
    next
      case (Some c)
      with ls l [OF ls] r [OF Some] pos \<open>s = Some a\<close> show ?thesis
        by (simp add: push_sons_Some stack_weight_def)
    qed
  qed
qed

lemma descendant_loop_result:
  assumes wf: "wf_heap h"
  shows "(\<And>a. Some a \<in> set st \<Longrightarrow> a < length h) \<Longrightarrow>
    descendant_loop h tree st =
      Some (\<exists>s\<in>set st. s = tree \<or> (\<exists>c p. tree = Some c \<and> walk_down h s p = Some c))"
proof (induction "stack_weight h st" arbitrary: st rule: less_induct)
  case less
  show ?case
  proof (cases st)
    case Nil
    then show ?thesis by (simp add: descendant_loop_Nil)
  next
    case (Cons s rest)
    show ?thesis
    proof (cases "s = tree")
      case True
      with Cons show ?thesis by (simp add: descendant_loop_Cons)
    next
      case False
      let ?st' = "push_sons h s rest"
      have valid_s: "a < length h" if "s = Some a" for a
        using less.prems [of a] that Cons by simp
      have smaller: "stack_weight h ?st' < stack_weight h st"
        unfolding Cons using wf valid_s by (rule weight_push_sons)
      have valid': "a < length h" if "Some a \<in> set ?st'" for a
      proof (cases s)
        case None
        with that less.prems [of a] Cons show ?thesis by (simp add: push_sons_None)
      next
        case (Some x)
        from that have "(\<exists>d. son h x d = Some a) \<or> Some a \<in> set rest"
          unfolding Some set_push_sons by auto
        then show ?thesis
        proof
          assume "\<exists>d. son h x d = Some a"
          then obtain d where "son h x d = Some a" ..
          from wf_sonD(2) [OF wf valid_s [OF Some] this] show ?thesis .
        next
          assume "Some a \<in> set rest"
          with less.prems [of a] Cons show ?thesis by simp
        qed
      qed
      have same: "(\<exists>x\<in>set ?st'. x = tree \<or> (\<exists>c p. tree = Some c \<and> walk_down h x p = Some c))
         \<longleftrightarrow> (\<exists>x\<in>set st. x = tree \<or> (\<exists>c p. tree = Some c \<and> walk_down h x p = Some c))"
      proof (cases s)
        case None
        with False Cons show ?thesis by (auto simp: push_sons_None)
      next
        case (Some a)
        with False have ne: "Some a \<noteq> tree" by simp
        show ?thesis
          unfolding Cons Some set_push_sons using ne found_step [OF ne, of h]
          by (simp add: bex_Un) blast
      qed
      have "descendant_loop h tree st = descendant_loop h tree ?st'"
        using Cons False by (simp add: descendant_loop_Cons)
      with less.hyps [OF smaller valid'] same show ?thesis by simp
    qed
  qed
qed

lemma walk_down_append:
  "walk_down h r (p @ q) = walk_down h (walk_down h r p) q"
proof (induction p arbitrary: r)
  case Nil
  show ?case by simp
next
  case (Cons d p)
  show ?case by (cases r) (simp_all add: Cons.IH)
qed

lemma walk_down_up:
  assumes wf: "wf_heap h"
  shows "b < length h \<Longrightarrow> walk_down h (Some b) p = Some a \<Longrightarrow>
    walk_up h (Some a) (length p) = Some b"
proof (induction p arbitrary: b)
  case Nil
  then show ?case by simp
next
  case (Cons d ds)
  from Cons.prems(2) have w: "walk_down h (son h b d) ds = Some a" by simp
  then obtain c where c: "son h b d = Some c" by (cases "son h b d") simp_all
  note son = wf_sonD [OF wf Cons.prems(1) c]
  from w c have "walk_down h (Some c) ds = Some a" by simp
  from Cons.IH [OF son(2) this] have "walk_up h (Some a) (length ds) = Some c" .
  then have "walk_up h (Some a) (length ds + 1) = walk_up h (Some c) 1"
    by (simp only: walk_up_add)
  with son(3) show ?case by simp
qed

lemma walk_up_down:
  assumes wf: "wf_heap h"
  shows "a < length h \<Longrightarrow> walk_up h (Some a) k = Some b \<Longrightarrow>
    \<exists>p. length p = k \<and> walk_down h (Some b) p = Some a"
proof (induction k arbitrary: a)
  case 0
  then have "walk_down h (Some b) [] = Some a" by simp
  then show ?case by (intro exI [of _ "[]"]) simp
next
  case (Suc k)
  from Suc.prems(2) obtain f where f: "father h a = Some f"
    and w: "walk_up h (Some f) k = Some b"
    by (cases "father h a") simp_all
  from wf_fatherD(1) [OF wf Suc.prems(1) f] Suc.prems(1) have "f < length h" by simp
  from Suc.IH [OF this w] obtain p where p: "length p = k" "walk_down h (Some b) p = Some f"
    by blast
  from wf_father_son [OF wf Suc.prems(1) f] obtain s where "son h f s = Some a" ..
  with p(2) have "walk_down h (Some b) (p @ [s]) = Some a"
    by (simp add: walk_down_append)
  with p(1) show ?case by (intro exI [of _ "p @ [s]"]) simp
qed

lemma up_chain_iff_down_path:
  assumes wf: "wf_heap h" and a: "a < length h" and b: "b < length h"
  shows "(\<exists>k. walk_up h (father h a) k = Some b) \<longleftrightarrow>
     (\<exists>p. p \<noteq> [] \<and> walk_down h (Some b) p = Some a)"
proof
  assume "\<exists>k. walk_up h (father h a) k = Some b"
  then obtain k where "walk_up h (father h a) k = Some b" ..
  then have "walk_up h (Some a) (Suc k) = Some b" by simp
  from walk_up_down [OF wf a this] obtain p where
    "length p = Suc k" "walk_down h (Some b) p = Some a" by blast
  then have "p \<noteq> [] \<and> walk_down h (Some b) p = Some a" by auto
  then show "\<exists>p. p \<noteq> [] \<and> walk_down h (Some b) p = Some a" ..
next
  assume "\<exists>p. p \<noteq> [] \<and> walk_down h (Some b) p = Some a"
  then obtain p where p: "p \<noteq> []" "walk_down h (Some b) p = Some a" by blast
  from walk_down_up [OF wf b p(2)] have u: "walk_up h (Some a) (length p) = Some b" .
  from p(1) obtain k where "length p = Suc k" by (cases p) simp_all
  with u have "walk_up h (father h a) k = Some b" by simp
  then show "\<exists>k. walk_up h (father h a) k = Some b" ..
qed

lemma ancestor_result:
  assumes wf: "wf_heap h" and n: "n < length h"
  shows "ancestor h n c = Some (c \<noteq> None \<and> (\<exists>k. walk_up h (father h n) k = c))"
  unfolding ancestor_def
proof (rule ancestor_loop_result [OF wf])
  fix a
  assume "father h n = Some a"
  from wf_fatherD(1) [OF wf n this] n show "a < length h" by simp
qed

lemma seed_valid:
  assumes wf: "wf_heap h" and n: "n < length h" and s: "Some a \<in> set (descendant_seed h n)"
  shows "a < length h"
proof -
  from s have "right h n = Some a \<or> left h n = Some a"
    by (auto simp: descendant_seed_def push_def)
  then show ?thesis
    using wf_leftD(2) [OF wf n] wf_rightD(2) [OF wf n] by blast
qed

lemma descendant_result:
  assumes wf: "wf_heap h" and n: "n < length h"
  shows "descendant h n (Some c) =
     Some (\<exists>p. p \<noteq> [] \<and> walk_down h (Some n) p = Some c)"
proof -
  have "descendant h n (Some c) =
      Some (\<exists>s\<in>set (descendant_seed h n).
              s = Some c \<or> (\<exists>c' p. Some c = Some c' \<and> walk_down h s p = Some c'))"
    unfolding descendant_def
    by (rule descendant_loop_result [OF wf]) (rule seed_valid [OF wf n])
  moreover have "(\<exists>s\<in>set (descendant_seed h n).
              s = Some c \<or> (\<exists>c' p. Some c = Some c' \<and> walk_down h s p = Some c'))
     \<longleftrightarrow> (\<exists>p. p \<noteq> [] \<and> walk_down h (Some n) p = Some c)"
  proof
    assume "\<exists>s\<in>set (descendant_seed h n).
              s = Some c \<or> (\<exists>c' p. Some c = Some c' \<and> walk_down h s p = Some c')"
    then obtain s where s: "s = right h n \<or> s = left h n"
      and f: "s = Some c \<or> (\<exists>p. walk_down h s p = Some c)"
      by (auto simp: descendant_seed_def push_def)
    from f have "\<exists>p. walk_down h s p = Some c"
    proof
      assume "s = Some c"
      then have "walk_down h s [] = Some c" by simp
      then show ?thesis ..
    qed
    then obtain p where p: "walk_down h s p = Some c" ..
    from s obtain d where "s = son h n d"
    proof
      assume "s = right h n"
      then have "s = son h n R" by (simp add: son_def)
      then show ?thesis by (rule that)
    next
      assume "s = left h n"
      then have "s = son h n L" by (simp add: son_def)
      then show ?thesis by (rule that)
    qed
    with p have "d # p \<noteq> [] \<and> walk_down h (Some n) (d # p) = Some c" by simp
    then show "\<exists>p. p \<noteq> [] \<and> walk_down h (Some n) p = Some c" ..
  next
    assume "\<exists>p. p \<noteq> [] \<and> walk_down h (Some n) p = Some c"
    then obtain p where "p \<noteq> []" and w: "walk_down h (Some n) p = Some c" by blast
    then obtain d ds where "p = d # ds" by (cases p) simp_all
    with w have ds: "walk_down h (son h n d) ds = Some c" by simp
    have "son h n d \<in> set (descendant_seed h n)"
      by (cases d) (simp_all add: son_def descendant_seed_def push_def)
    with ds show "\<exists>s\<in>set (descendant_seed h n).
              s = Some c \<or> (\<exists>c' p. Some c = Some c' \<and> walk_down h s p = Some c')"
      by blast
  qed
  ultimately show ?thesis by simp
qed

lemma descendant_null:
  assumes wf: "wf_heap h" and n: "n < length h"
  shows "descendant h n None = Some (left h n = None \<or> right h n = None)"
proof -
  have "descendant h n None =
      Some (\<exists>s\<in>set (descendant_seed h n).
              s = None \<or> (\<exists>c p. None = Some c \<and> walk_down h s p = Some c))"
    unfolding descendant_def
    by (rule descendant_loop_result [OF wf]) (rule seed_valid [OF wf n])
  then show ?thesis
    by (auto simp: descendant_seed_def push_def)
qed

section \<open>The example store\<close>

lemma example_heap_wf: "wf_heap example_heap"
  by code_simp

lemma example_heap_length: "length example_heap = 5"
  by (simp add: example_heap_def)

lemma example_heap_built:
  "(let (h0, r) = new_BinaryTreeNode [] 5;
        h1 = fst (insertLeft h0 r 3);
        h2 = fst (insertRight h1 r 8);
        h3 = fst (insertLeft h2 1 1);
        h4 = fst (insertRight h3 1 4)
    in h4) = example_heap"
  by (simp add: new_BinaryTreeNode_def insertLeft_def insertRight_def example_heap_def
      set_left_def set_right_def set_father_def set_level_def left_def right_def level_def)

section \<open>The claims\<close>

text \<open>
  Claim C1. For every node \<open>n\<close> and payload \<open>d\<close>, \<^verbatim>\<open>insertLeft(d)\<close> raises
  the insertion error (\<^verbatim>\<open>InvalidInsertion\<close> in the source, DuplicateSlot in the
  spec) if and only if \<^verbatim>\<open>n.left\<close> is occupied, and \<^verbatim>\<open>insertRight(d)\<close> if and
  only if \<^verbatim>\<open>n.right\<close> is; when the call raises, the store after it is the store
  before it, so no node's father, left, right or level has changed.
\<close>

theorem insert_raises_iff_occupied:
  "(snd (insertLeft h n d) = Inl InvalidInsertion \<longleftrightarrow> left h n \<noteq> None) \<and>
   (snd (insertLeft h n d) = Inl InvalidInsertion \<longrightarrow> fst (insertLeft h n d) = h) \<and>
   (snd (insertRight h n d) = Inl InvalidInsertion \<longleftrightarrow> right h n \<noteq> None) \<and>
   (snd (insertRight h n d) = Inl InvalidInsertion \<longrightarrow> fst (insertRight h n d) = h)"
  by (simp add: insertLeft_def insertRight_def new_BinaryTreeNode_def Let_def)

theorem insert_raises_witness:
  "left example_heap 0 \<noteq> None \<and> right example_heap 0 \<noteq> None \<and>
   insertLeft example_heap 0 7 = (example_heap, Inl InvalidInsertion) \<and>
   insertRight example_heap 0 7 = (example_heap, Inl InvalidInsertion)"
proof -
  have occ: "left example_heap 0 \<noteq> None" "right example_heap 0 \<noteq> None"
    by (simp_all add: left_def right_def example_heap_def)
  from insert_raises_iff_occupied [of example_heap 0 7] occ
  have "snd (insertLeft example_heap 0 7) = Inl InvalidInsertion"
    "fst (insertLeft example_heap 0 7) = example_heap"
    "snd (insertRight example_heap 0 7) = Inl InvalidInsertion"
    "fst (insertRight example_heap 0 7) = example_heap"
    by blast+
  with occ show ?thesis by (simp add: prod_eq_iff)
qed

text \<open>
  Claim C5. On a node \<open>n\<close> whose left slot is empty, \<^verbatim>\<open>insertLeft(d)\<close> returns
  \<open>n\<close> and allocates one object: the store grows by one cell, the new object holds
  \<open>d\<close>, has \<open>n\<close> as father, the level of \<open>n\<close> plus one and no sons, and is the left
  son of \<open>n\<close>; nothing else of \<open>n\<close> and no other object changes. The same holds of
  \<^verbatim>\<open>insertRight(d)\<close> and the right slot.
\<close>

theorem insert_attaches_leaf:
  assumes "n < length h"
  shows "(left h n = None \<longrightarrow>
      snd (insertLeft h n d) = Inr n \<and>
      length (fst (insertLeft h n d)) = length h + 1 \<and>
      data (fst (insertLeft h n d)) (length h) = d \<and>
      father (fst (insertLeft h n d)) (length h) = Some n \<and>
      level (fst (insertLeft h n d)) (length h) = level h n + 1 \<and>
      left (fst (insertLeft h n d)) (length h) = None \<and>
      right (fst (insertLeft h n d)) (length h) = None \<and>
      left (fst (insertLeft h n d)) n = Some (length h) \<and>
      fst (insertLeft h n d) ! n = (h ! n)\<lparr>p_left := Some (length h)\<rparr> \<and>
      (\<forall>m<length h. m \<noteq> n \<longrightarrow> fst (insertLeft h n d) ! m = h ! m)) \<and>
     (right h n = None \<longrightarrow>
      snd (insertRight h n d) = Inr n \<and>
      length (fst (insertRight h n d)) = length h + 1 \<and>
      data (fst (insertRight h n d)) (length h) = d \<and>
      father (fst (insertRight h n d)) (length h) = Some n \<and>
      level (fst (insertRight h n d)) (length h) = level h n + 1 \<and>
      left (fst (insertRight h n d)) (length h) = None \<and>
      right (fst (insertRight h n d)) (length h) = None \<and>
      right (fst (insertRight h n d)) n = Some (length h) \<and>
      fst (insertRight h n d) ! n = (h ! n)\<lparr>p_right := Some (length h)\<rparr> \<and>
      (\<forall>m<length h. m \<noteq> n \<longrightarrow> fst (insertRight h n d) ! m = h ! m))"
  using assms
  by (simp add: insertLeft_effect insertRight_effect data_def father_def level_def
      left_def right_def nth_append)

theorem insert_attaches_leaf_witness:
  "2 < length example_heap \<and> left example_heap 2 = None \<and> right example_heap 2 = None \<and>
   snd (insertLeft example_heap 2 6) = Inr 2 \<and>
   data (fst (insertLeft example_heap 2 6)) 5 = 6 \<and>
   father (fst (insertLeft example_heap 2 6)) 5 = Some 2 \<and>
   level (fst (insertLeft example_heap 2 6)) 5 = 2 \<and>
   left (fst (insertLeft example_heap 2 6)) 2 = Some 5 \<and>
   fst (insertLeft example_heap 2 6) ! 0 = example_heap ! 0 \<and>
   snd (insertRight example_heap 2 6) = Inr 2 \<and>
   father (fst (insertRight example_heap 2 6)) 5 = Some 2 \<and>
   level (fst (insertRight example_heap 2 6)) 5 = 2 \<and>
   right (fst (insertRight example_heap 2 6)) 2 = Some 5"
proof -
  have n: "2 < length example_heap" by (simp add: example_heap_length)
  have e: "left example_heap 2 = None" "right example_heap 2 = None"
    by (simp_all add: left_def right_def example_heap_def)
  have l: "level example_heap 2 = 1" by (simp add: level_def example_heap_def)
  from insert_attaches_leaf [OF n, of 6] e l n show ?thesis
    by (simp add: example_heap_length)
qed



text \<open>
  Claim C2. For two nodes \<open>a\<close> and \<open>b\<close> of a well-formed store (of one tree or not),
  \<^verbatim>\<open>a.ancestor(b)\<close> and \<^verbatim>\<open>b.descendant(a)\<close> both return, and return the same
  truth value.
\<close>

theorem ancestor_iff_descendant:
  assumes "wf_heap h" and "a < length h" and "b < length h"
  shows "ancestor h a (Some b) = descendant h b (Some a) \<and>
     (\<exists>r. ancestor h a (Some b) = Some r)"
  using assms
  by (simp add: ancestor_result descendant_result up_chain_iff_down_path)

theorem ancestor_iff_descendant_witness:
  "wf_heap example_heap \<and> 4 < length example_heap \<and> 0 < length example_heap \<and>
   ancestor example_heap 4 (Some 0) = Some True \<and>
   descendant example_heap 0 (Some 4) = Some True \<and>
   ancestor example_heap 4 (Some 2) = Some False \<and>
   descendant example_heap 2 (Some 4) = Some False"
proof -
  have n: "4 < length example_heap" "0 < length example_heap" "2 < length example_heap"
    by (simp_all add: example_heap_length)
  have a: "ancestor example_heap 4 (Some 0) = Some True"
    "ancestor example_heap 4 (Some 2) = Some False"
    by code_simp+
  from ancestor_iff_descendant [OF example_heap_wf n(1) n(2)] a(1)
  have "descendant example_heap 0 (Some 4) = Some True" by simp
  moreover from ancestor_iff_descendant [OF example_heap_wf n(1) n(3)] a(2)
  have "descendant example_heap 2 (Some 4) = Some False" by simp
  ultimately show ?thesis using example_heap_wf n a by blast
qed

text \<open>
  Claim C3, as amended. For a node \<open>n\<close> of a well-formed store and a node \<open>c\<close>,
  \<^verbatim>\<open>n.descendant(c)\<close> returns, and returns true exactly when \<open>c\<close> is reached from
  \<open>n\<close> along a non-empty path of son links; \<open>n\<close> is not its own descendant. The
  search starts from a stack holding \<^verbatim>\<open>n.right\<close> on top of \<^verbatim>\<open>n.left\<close>, pushed
  as they are, and a pass of the loop pushes, on top of the rest of the stack, exactly the
  sons of the popped node that are objects, never \<^verbatim>\<open>null\<close>.
\<close>

theorem descendant_search_seeded:
  assumes "wf_heap h" and "n < length h"
  shows "descendant h n (Some c) =
       Some (\<exists>p. p \<noteq> [] \<and> walk_down h (Some n) p = Some c) \<and>
     descendant h n (Some n) = Some False \<and>
     descendant_seed h n = [right h n, left h n] \<and>
     (\<forall>node rest. \<exists>ps.
        push_sons h node rest = ps @ rest \<and> None \<notin> set ps \<and>
        (\<forall>b. Some b \<in> set ps \<longleftrightarrow>
           (\<exists>a. node = Some a \<and> (left h a = Some b \<or> right h a = Some b))))"
proof -
  have "\<not> (\<exists>k. walk_up h (father h n) k = Some n)"
  proof
    assume "\<exists>k. walk_up h (father h n) k = Some n"
    then obtain k where "walk_up h (father h n) k = Some n" ..
    then have "walk_up h (Some n) (Suc k) = Some n" by simp
    from walk_up_le [OF assms this] show False by simp
  qed
  then have self: "descendant h n (Some n) = Some False"
    using assms by (simp add: descendant_result up_chain_iff_down_path [symmetric])
  have pushes: "\<exists>ps. push_sons h node rest = ps @ rest \<and> None \<notin> set ps \<and>
        (\<forall>b. Some b \<in> set ps \<longleftrightarrow>
           (\<exists>a. node = Some a \<and> (left h a = Some b \<or> right h a = Some b)))"
    for node rest
  proof (cases node)
    case None
    then have "push_sons h node rest = [] @ rest" by (simp add: push_sons_None)
    with None show ?thesis by (intro exI [of _ "[]"]) simp
  next
    case (Some a)
    let ?ps = "(case right h a of None \<Rightarrow> [] | Some r \<Rightarrow> [Some r]) @
       (case left h a of None \<Rightarrow> [] | Some l \<Rightarrow> [Some l])"
    have "push_sons h node rest = ?ps @ rest" by (simp add: Some push_sons_Some)
    moreover have "None \<notin> set ?ps" by (simp split: option.split)
    moreover have "Some b \<in> set ?ps \<longleftrightarrow>
        (\<exists>a. node = Some a \<and> (left h a = Some b \<or> right h a = Some b))" for b
      using Some by (cases "right h a"; cases "left h a") auto
    ultimately show ?thesis by blast
  qed
  show ?thesis
    using descendant_result [OF assms] self pushes
    by (simp add: descendant_seed_def push_def)
qed

theorem descendant_search_witness:
  "wf_heap example_heap \<and> 0 < length example_heap \<and>
   descendant example_heap 0 (Some 4) = Some True \<and>
   descendant example_heap 0 (Some 0) = Some False"
proof -
  have n: "0 < length example_heap" by (simp add: example_heap_length)
  have "walk_down example_heap (Some 0) [L, R] = Some 4" by code_simp
  then have "[L, R] \<noteq> [] \<and> walk_down example_heap (Some 0) [L, R] = Some 4" by simp
  then have "\<exists>p. p \<noteq> [] \<and> walk_down example_heap (Some 0) p = Some 4" ..
  with descendant_search_seeded [OF example_heap_wf n, of 4]
  have "descendant example_heap 0 (Some 4) = Some True"
    "descendant example_heap 0 (Some 0) = Some False"
    by simp_all
  with example_heap_wf n show ?thesis by blast
qed

text \<open>
  Claim C3 as stated says that the search pushes only non-empty children. The two seeds
  are pushed without a test: for the leaf at address 2 of the example store the stack
  holds two \<^verbatim>\<open>null\<close> entries before the loop.
\<close>

theorem descendant_seed_holds_null:
  "wf_heap example_heap \<and> 2 < length example_heap \<and>
   descendant_seed example_heap 2 = [None, None] \<and>
   None \<in> set (descendant_seed example_heap 2)"
  by code_simp

text \<open>
  Claim C10. For a node \<open>n\<close> of a well-formed store, \<^verbatim>\<open>n.descendant(null)\<close>
  returns, and returns true exactly when \<^verbatim>\<open>n.left\<close> or \<^verbatim>\<open>n.right\<close> is
  \<^verbatim>\<open>null\<close>: true for a leaf, false for a node with both sons.
\<close>

theorem descendant_of_null:
  assumes "wf_heap h" and "n < length h"
  shows "descendant h n None = Some (left h n = None \<or> right h n = None) \<and>
     (isLeaf h n \<longrightarrow> descendant h n None = Some True) \<and>
     (left h n \<noteq> None \<and> right h n \<noteq> None \<longrightarrow> descendant h n None = Some False)"
  using assms by (simp add: descendant_null isLeaf_def)

theorem descendant_of_null_witness:
  "wf_heap example_heap \<and> 2 < length example_heap \<and> 1 < length example_heap \<and>
   isLeaf example_heap 2 \<and> descendant example_heap 2 None = Some True \<and>
   left example_heap 1 \<noteq> None \<and> right example_heap 1 \<noteq> None \<and>
   descendant example_heap 1 None = Some False"
proof -
  have n: "2 < length example_heap" "1 < length example_heap"
    by (simp_all add: example_heap_length)
  have s: "isLeaf example_heap 2" "left example_heap 1 \<noteq> None" "right example_heap 1 \<noteq> None"
    by (simp_all add: isLeaf_def left_def right_def example_heap_def)
  from descendant_of_null [OF example_heap_wf n(1)] s(1)
  have "descendant example_heap 2 None = Some True" by blast
  moreover from descendant_of_null [OF example_heap_wf n(2)] s(2,3)
  have "descendant example_heap 1 None = Some False" by blast
  ultimately show ?thesis using example_heap_wf n s by blast
qed

text \<open>
  Claim C7. For a node \<open>n\<close> of a well-formed store, \<^verbatim>\<open>n.brother\<close> is
  \<^verbatim>\<open>null\<close> exactly when \<open>n\<close> is the root or the slot of its father opposite to
  its own is empty; a node with a father sits in exactly one slot of it, and its brother
  is what the other slot holds.
\<close>

theorem brother_is_opposite_son:
  assumes "wf_heap h" and "n < length h"
  shows "(brother h n = None \<longleftrightarrow>
        isRoot h n \<or>
        (\<exists>f. father h n = Some f \<and>
           (isLeft h n \<and> right h f = None \<or> isRight h n \<and> left h f = None))) \<and>
     (\<forall>f. father h n = Some f \<longrightarrow>
        isLeft h n \<and> \<not> isRight h n \<and> brother h n = right h f \<or>
        isRight h n \<and> \<not> isLeft h n \<and> brother h n = left h f)"
proof (cases "father h n")
  case None
  then show ?thesis by (simp add: brother_def isRoot_def)
next
  case (Some f)
  from wf_fatherD(3,4) [OF assms Some]
  have "left h f = Some n \<and> right h f \<noteq> Some n \<or> right h f = Some n \<and> left h f \<noteq> Some n"
    by blast
  then show ?thesis
    using Some by (auto simp: brother_def isRoot_def isLeft_def isRight_def)
qed

theorem brother_witness:
  "wf_heap example_heap \<and> 3 < length example_heap \<and> 0 < length example_heap \<and>
   father example_heap 3 = Some 1 \<and> isLeft example_heap 3 \<and>
   brother example_heap 3 = Some 4 \<and>
   isRoot example_heap 0 \<and> brother example_heap 0 = None"
proof -
  have n: "3 < length example_heap" "0 < length example_heap"
    by (simp_all add: example_heap_length)
  have f: "father example_heap 3 = Some 1" "right example_heap 1 = Some 4"
    "isLeft example_heap 3" "\<not> isRight example_heap 3" "isRoot example_heap 0"
    by (simp_all add: father_def right_def left_def isLeft_def isRight_def isRoot_def
        example_heap_def)
  from brother_is_opposite_son [OF example_heap_wf n(1)] f
  have "brother example_heap 3 = Some 4" by auto
  moreover from brother_is_opposite_son [OF example_heap_wf n(2)] f(5)
  have "brother example_heap 0 = None" by blast
  ultimately show ?thesis using example_heap_wf n f by blast
qed

text \<open>
  Claim C8. For a node \<open>n\<close> of a well-formed store, \<^verbatim>\<open>n.root\<close> returns a node
  \<open>r\<close> of the store that has no father and is reached from \<open>n\<close> by following father
  links; it is the only fatherless node so reached, and it is \<open>n\<close> itself exactly when
  \<open>n\<close> has no father.
\<close>

theorem root_ends_father_chain:
  assumes "wf_heap h" and "n < length h"
  shows "\<exists>r. root h n = Some r \<and> r < length h \<and> isRoot h r \<and>
     (\<exists>k. walk_up h (Some n) k = Some r) \<and>
     (\<forall>k r'. walk_up h (Some n) k = Some r' \<and> isRoot h r' \<longrightarrow> r' = r) \<and>
     (r = n \<longleftrightarrow> isRoot h n)"
proof -
  from root_loop_walk [OF assms] obtain r k where
    r: "root_loop h n = Some r" "r \<le> n" "father h r = None" "walk_up h (Some n) k = Some r"
    by blast
  have uniq: "r' = r" if "walk_up h (Some n) k' = Some r'" "isRoot h r'" for k' r'
    using walk_up_root_unique [OF r(4) r(3) that(1)] that(2) by (simp add: isRoot_def)
  have "r = n \<longleftrightarrow> isRoot h n"
  proof
    assume "r = n"
    with r(3) show "isRoot h n" by (simp add: isRoot_def)
  next
    assume "isRoot h n"
    moreover have "walk_up h (Some n) 0 = Some n" by simp
    ultimately show "r = n" using uniq by blast
  qed
  moreover from r(2) assms(2) have "r < length h" by simp
  moreover from r(4) have "\<exists>k. walk_up h (Some n) k = Some r" ..
  moreover have "\<forall>k r'. walk_up h (Some n) k = Some r' \<and> isRoot h r' \<longrightarrow> r' = r"
    using uniq by blast
  moreover from r(1,3) have "root h n = Some r" "isRoot h r"
    by (simp_all add: root_def isRoot_def)
  ultimately show ?thesis by blast
qed

theorem root_witness:
  "wf_heap example_heap \<and> 4 < length example_heap \<and> root example_heap 4 = Some 0"
proof -
  have n: "4 < length example_heap" by (simp add: example_heap_length)
  from root_ends_father_chain [OF example_heap_wf n] obtain r where
    r: "root example_heap 4 = Some r"
    and u: "\<forall>k r'. walk_up example_heap (Some 4) k = Some r' \<and> isRoot example_heap r' \<longrightarrow> r' = r"
    by blast
  have "walk_up example_heap (Some 4) 2 = Some 0 \<and> isRoot example_heap 0" by code_simp
  with u have "0 = r" by blast
  with r example_heap_wf n show ?thesis by simp
qed

text \<open>
  Claim C9. For a node \<open>n\<close> of a well-formed store and a reference \<open>c\<close>,
  \<^verbatim>\<open>n.ancestor(c)\<close> returns, and returns true exactly when \<open>c\<close> is an object met
  on the father chain that starts at \<^verbatim>\<open>n.father\<close>; \<open>n\<close> is not its own ancestor,
  and a root has no ancestor at all.
\<close>

theorem ancestor_walks_father_chain:
  assumes "wf_heap h" and "n < length h"
  shows "ancestor h n c = Some (c \<noteq> None \<and> (\<exists>k. walk_up h (father h n) k = c)) \<and>
     ancestor h n (Some n) = Some False \<and>
     (isRoot h n \<longrightarrow> (\<forall>x. ancestor h n x = Some False))"
proof -
  have "\<not> (\<exists>k. walk_up h (father h n) k = Some n)"
  proof
    assume "\<exists>k. walk_up h (father h n) k = Some n"
    then obtain k where "walk_up h (father h n) k = Some n" ..
    then have "walk_up h (Some n) (Suc k) = Some n" by simp
    from walk_up_le [OF assms this] show False by simp
  qed
  then have "ancestor h n (Some n) = Some False"
    using assms by (simp add: ancestor_result)
  moreover have "isRoot h n \<longrightarrow> (\<forall>x. ancestor h n x = Some False)"
    by (simp add: isRoot_def ancestor_def ancestor_loop_None)
  ultimately show ?thesis using ancestor_result [OF assms] by simp
qed

theorem ancestor_witness:
  "wf_heap example_heap \<and> 4 < length example_heap \<and> 0 < length example_heap \<and>
   ancestor example_heap 4 (Some 0) = Some True \<and>
   ancestor example_heap 4 (Some 4) = Some False \<and>
   isRoot example_heap 0 \<and> ancestor example_heap 0 (Some 1) = Some False"
proof -
  have n: "4 < length example_heap" "0 < length example_heap"
    by (simp_all add: example_heap_length)
  have "walk_up example_heap (father example_heap 4) 1 = Some 0" by code_simp
  then have "\<exists>k. walk_up example_heap (father example_heap 4) k = Some 0" ..
  with ancestor_walks_father_chain [OF example_heap_wf n(1), of "Some 0"]
  have "ancestor example_heap 4 (Some 0) = Some True"
    "ancestor example_heap 4 (Some 4) = Some False"
    by simp_all
  moreover have r: "isRoot example_heap 0" by code_simp
  with ancestor_walks_father_chain [OF example_heap_wf n(2), of None]
  have "ancestor example_heap 0 (Some 1) = Some False" by blast
  ultimately show ?thesis using example_heap_wf n r by blast
qed

section \<open>The traversal modes\<close>

text \<open>
  What the enum \<^verbatim>\<open>TraversalMethod\<close> fixes on its own: ASC and PREORDER are one
  number, DESC and POSTORDER are one number, and INORDER is a third. The dispatch of
  \<^verbatim>\<open>traverse\<close> on these numbers is not among the sources, so nothing is stated
  here about the order a mode selects.
\<close>

lemma TraversalMethod_values:
  "ASC = 0 \<and> DESC = 1 \<and> PREORDER = 0 \<and> POSTORDER = 1 \<and> INORDER = 2 \<and>
   ASC = PREORDER \<and> DESC = POSTORDER"
  by (simp add: ASC_def DESC_def PREORDER_def POSTORDER_def INORDER_def)

end
